theory Spec2Isabelle
  imports Main "HOL-Library.Word"
begin

section \<open>Errors and the cancellation token\<close>

text \<open>
  The error values the programs build and print. \<open>Canceled\<close> and
  \<open>DeadlineExceeded\<close> are the package-level \<^verbatim>\<open>context.Canceled\<close> and
  \<^verbatim>\<open>context.DeadlineExceeded\<close>; \<open>TransportError\<close> stands for whatever
  \<^verbatim>\<open>http.NewRequestWithContext\<close> or \<^verbatim>\<open>http.DefaultClient.Do\<close> returned;
  \<open>ErrorsNew s\<close> is \<^verbatim>\<open>errors.New(s)\<close>; \<open>Errorf p e\<close> is
  \<^verbatim>\<open>fmt.Errorf(p + "%w", e)\<close>. A Go \<^verbatim>\<open>error\<close> that may be nil is an
  \<open>error option\<close>, with \<open>None\<close> for nil.
\<close>

datatype error =
    Canceled
  | DeadlineExceeded
  | TransportError string
  | ErrorsNew string
  | Errorf string error

fun Error :: "error \<Rightarrow> string" where
  "Error Canceled = ''context canceled''"
| "Error DeadlineExceeded = ''context deadline exceeded''"
| "Error (TransportError s) = s"
| "Error (ErrorsNew s) = s"
| "Error (Errorf p e) = p @ Error e"

text \<open>
  The state that \<^verbatim>\<open>context.WithCancelCause\<close> attaches to a context: whether the
  channel returned by \<^verbatim>\<open>Done()\<close> is closed, and what \<^verbatim>\<open>context.Cause\<close>
  returns. The cancel function follows the library (and the comment of the program at
  the deferred call: any invocation after the first does nothing): under the context's
  lock it returns at once when the context is already cancelled; otherwise it records
  the cause, \<^verbatim>\<open>context.Canceled\<close> standing in for a nil cause, and closes the channel.
\<close>

record token =
  cancelled :: bool
  cause :: "error option"

definition active :: token where
  "active = \<lparr>cancelled = False, cause = None\<rparr>"

definition cancelFunc :: "error option \<Rightarrow> token \<Rightarrow> token" where
  "cancelFunc c t =
     (if cancelled t then t
      else \<lparr>cancelled = True,
            cause = Some (case c of None \<Rightarrow> Canceled | Some e \<Rightarrow> e)\<rparr>)"

definition Cause :: "token \<Rightarrow> error option" where
  "Cause t = cause t"

text \<open>A sequence of cancel calls, in the order in which they take the context's lock.\<close>

fun cancel_all :: "error option list \<Rightarrow> token \<Rightarrow> token" where
  "cancel_all [] t = t"
| "cancel_all (c # cs) t = cancel_all cs (cancelFunc c t)"

text \<open>How many of the calls of a sequence change the token from active to cancelled.\<close>

fun transitions :: "error option list \<Rightarrow> token \<Rightarrow> nat" where
  "transitions [] t = 0"
| "transitions (c # cs) t =
     (if \<not> cancelled t \<and> cancelled (cancelFunc c t) then 1 else 0)
       + transitions cs (cancelFunc c t)"

section \<open>Request-scoped values\<close>

text \<open>
  Context keys are compared as interface values, by dynamic type and value, so the
  constant \<^verbatim>\<open>key\<close> of package main (type \<^verbatim>\<open>keyType\<close>), of package tracker
  (type \<^verbatim>\<open>guidKey\<close>) and of package identity (type \<^verbatim>\<open>userKey\<close>) are three
  different keys although each is the integer 1. Stored values carry their dynamic
  type as well: a \<^verbatim>\<open>Level\<close> is not a \<^verbatim>\<open>string\<close> for a type assertion.
\<close>

datatype ctx_key = KeyType int | GuidKey int | UserKey int | UserKeyStruct | ForeignKey string

datatype any = LevelValue string | StringValue string | ForeignValue string

datatype "context" =
    Background
  | ValueCtx "context" ctx_key any
  | CancelCtx "context" token
  | TimerCtx "context" int token

definition context_WithValue :: "context \<Rightarrow> ctx_key \<Rightarrow> any \<Rightarrow> context" where
  "context_WithValue parent k v = ValueCtx parent k v"

fun Value :: "context \<Rightarrow> ctx_key \<Rightarrow> any option" where
  "Value Background k = None"
| "Value (ValueCtx parent k' v) k = (if k' = k then Some v else Value parent k)"
| "Value (CancelCtx parent t) k = Value parent k"
| "Value (TimerCtx parent d t) k = Value parent k"

text \<open>Package main (the logging exercise): \<^verbatim>\<open>const ( _ keyType = iota; key )\<close>.\<close>

definition main_key :: ctx_key where
  "main_key = KeyType 1"

definition Debug :: string where
  "Debug = ''debug''"

definition Info :: string where
  "Info = ''info''"

definition LogLevelFromContext :: "context \<Rightarrow> string \<times> bool" where
  "LogLevelFromContext c =
     (case Value c main_key of Some (LevelValue v) \<Rightarrow> (v, True) | _ \<Rightarrow> ('''', False))"

definition ContextWithLogLevel :: "context \<Rightarrow> string \<Rightarrow> context" where
  "ContextWithLogLevel c l = context_WithValue c main_key (LevelValue l)"

text \<open>Package tracker: \<^verbatim>\<open>const key guidKey = 1\<close>.\<close>

definition tracker_key :: ctx_key where
  "tracker_key = GuidKey 1"

definition contextWithGUID :: "context \<Rightarrow> string \<Rightarrow> context" where
  "contextWithGUID c guid = context_WithValue c tracker_key (StringValue guid)"

definition guidFromContext :: "context \<Rightarrow> string \<times> bool" where
  "guidFromContext c =
     (case Value c tracker_key of Some (StringValue g) \<Rightarrow> (g, True) | _ \<Rightarrow> ('''', False))"

text \<open>Package identity: the struct key and \<^verbatim>\<open>const ( _ userKey = iota; key )\<close>.\<close>

definition ContextWithUserStruct :: "context \<Rightarrow> string \<Rightarrow> context" where
  "ContextWithUserStruct c user = context_WithValue c UserKeyStruct (StringValue user)"

definition UserFromContextStruct :: "context \<Rightarrow> string \<times> bool" where
  "UserFromContextStruct c =
     (case Value c UserKeyStruct of Some (StringValue u) \<Rightarrow> (u, True) | _ \<Rightarrow> ('''', False))"

definition identity_key :: ctx_key where
  "identity_key = UserKey 1"

definition ContextWithUser :: "context \<Rightarrow> string \<Rightarrow> context" where
  "ContextWithUser c user = context_WithValue c identity_key (StringValue user)"

definition UserFromContext :: "context \<Rightarrow> string \<times> bool" where
  "UserFromContext c =
     (case Value c identity_key of Some (StringValue u) \<Rightarrow> (u, True) | _ \<Rightarrow> ('''', False))"

section \<open>Requests, handlers and the middleware of package main\<close>

text \<open>
  A request carries its context next to the data the handlers read. A handler is a
  function from the state of the response writer (and whatever else it writes to) and
  the request to the new state.
\<close>

record request =
  Method :: string
  Query :: "(string \<times> string) list"
  Header :: "(string \<times> string) list"
  Cookies :: "(string \<times> string) list"
  ctx :: "context"

definition Context :: "request \<Rightarrow> context" where
  "Context r = ctx r"

definition WithContext :: "request \<Rightarrow> context \<Rightarrow> request" where
  "WithContext r c = r\<lparr>ctx := c\<rparr>"

type_synonym 'w handler = "'w \<Rightarrow> request \<Rightarrow> 'w"

text \<open>
  \<^verbatim>\<open>time.Duration(ms) * time.Millisecond\<close> is a product of 64-bit integers and wraps.
  \<^verbatim>\<open>context.WithTimeout(parent, d)\<close> derives a context whose deadline is the time of
  the call plus \<open>d\<close>: when the parent's deadline is earlier the derived context is a
  plain cancellable one; when \<open>d\<close> is not positive it is born expired. Its cancel
  function cancels the derived context only. A context is done when its own token or
  that of an ancestor is cancelled.
\<close>

definition Millisecond :: "64 word" where
  "Millisecond = 1000000"

fun Deadline :: "context \<Rightarrow> int option" where
  "Deadline Background = None"
| "Deadline (ValueCtx parent k v) = Deadline parent"
| "Deadline (CancelCtx parent t) = Deadline parent"
| "Deadline (TimerCtx parent d t) = Some d"

fun is_done :: "context \<Rightarrow> bool" where
  "is_done Background = False"
| "is_done (ValueCtx parent k v) = is_done parent"
| "is_done (CancelCtx parent t) = (cancelled t \<or> is_done parent)"
| "is_done (TimerCtx parent d t) = (cancelled t \<or> is_done parent)"

definition context_WithDeadline :: "context \<Rightarrow> int \<Rightarrow> int \<Rightarrow> context" where
  "context_WithDeadline parent now d =
     (if (case Deadline parent of None \<Rightarrow> False | Some cur \<Rightarrow> cur < d)
      then CancelCtx parent active
      else if d - now \<le> 0
      then TimerCtx parent d \<lparr>cancelled = True, cause = Some DeadlineExceeded\<rparr>
      else TimerCtx parent d active)"

definition context_WithTimeout :: "context \<Rightarrow> int \<Rightarrow> 64 word \<Rightarrow> context" where
  "context_WithTimeout parent now timeout = context_WithDeadline parent now (now + sint timeout)"

fun cancel_context :: "context \<Rightarrow> context" where
  "cancel_context (TimerCtx parent d t) = TimerCtx parent d (cancelFunc None t)"
| "cancel_context (CancelCtx parent t) = CancelCtx parent (cancelFunc None t)"
| "cancel_context c = c"

text \<open>
  The handler that \<^verbatim>\<open>Timeout(ms)(h)\<close> returns, run when the clock reads \<open>now\<close>:
  the state the wrapped handler leaves, and the derived context as the deferred
  cancel function leaves it on return.
\<close>

definition Timeout_run :: "64 word \<Rightarrow> 'w handler \<Rightarrow> int \<Rightarrow> 'w \<Rightarrow> request \<Rightarrow> 'w \<times> context" where
  "Timeout_run ms h now w r =
     (let c = Context r;
          c' = context_WithTimeout c now (ms * Millisecond);
          w' = h w r
      in (w', cancel_context c'))"

definition Timeout :: "64 word \<Rightarrow> 'w handler \<Rightarrow> int \<Rightarrow> 'w handler" where
  "Timeout ms h now = (\<lambda>w r. fst (Timeout_run ms h now w r))"

text \<open>
  For comparison, the log-level middleware of the same file does attach the context it
  derives: \<^verbatim>\<open>r = r.WithContext(ctx)\<close>. The warning it logs for any other parameter
  value is left out.
\<close>

definition Query_Get :: "request \<Rightarrow> string \<Rightarrow> string" where
  "Query_Get r k = (case map_of (Query r) k of None \<Rightarrow> '''' | Some v \<Rightarrow> v)"

definition ExtractLogLevelMiddleware :: "'w handler \<Rightarrow> 'w handler" where
  "ExtractLogLevelMiddleware h = (\<lambda>w r.
     let param = Query_Get r ''log_level'';
         logLevel = (if param = Debug then Debug else if param = Info then Info else '''');
         r' = (if logLevel \<noteq> '''' then WithContext r (ContextWithLogLevel (Context r) logLevel)
               else r)
     in h w r')"

section \<open>The two workers and the collector\<close>

text \<open>
  What \<^verbatim>\<open>makeRequest\<close> returns: an error (from building the request or from the
  client), or a response, of which the workers read the status code and the
  \<^verbatim>\<open>date\<close> header.
\<close>

record response =
  StatusCode :: nat
  Header_date :: string

datatype outcome = Failed error | Ok response

definition StatusInternalServerError :: nat where
  "StatusInternalServerError = 500"

definition Second :: int where
  "Second = 1000000000"

text \<open>
  \<^verbatim>\<open>makeRequest(ctx, url)\<close> binds the request to the context. \<open>net\<close> is what the
  network would answer. A request bound to a cancelled context does not complete with
  a response: the client gives up with an error, so a response is no possible result
  then (\<open>None\<close>).
\<close>

definition makeRequest :: "token \<Rightarrow> string \<Rightarrow> outcome \<Rightarrow> outcome option" where
  "makeRequest t url net =
     (case net of
        Failed err \<Rightarrow> Some (Failed err)
      | Ok resp \<Rightarrow> if cancelled t then None else Some (Ok resp))"

text \<open>
  The statements a goroutine runs after \<^verbatim>\<open>makeRequest\<close> has returned, up to the end
  of the loop body. \<open>Select m\<close> is the \<^verbatim>\<open>select\<close> between sending \<open>m\<close> on the
  channel and receiving from \<^verbatim>\<open>ctx.Done()\<close>. \<open>Println p a\<close> prints the literal
  \<open>p\<close> and the argument \<open>a\<close>.
\<close>

datatype arg = S string | E "error option"

datatype action =
    CancelFunc error
  | Println string arg
  | Select string
  | Sleep int
  | Return

definition status_goroutine :: "outcome \<Rightarrow> action list" where
  "status_goroutine r =
     (case r of
        Failed err \<Rightarrow> [CancelFunc (Errorf ''in status goroutine: '' err), Return]
      | Ok resp \<Rightarrow>
          if StatusCode resp = StatusInternalServerError
          then [CancelFunc (ErrorsNew ''bad status''), Return]
          else [Select ''success from status'', Sleep (1 * Second)])"

definition delay_goroutine :: "outcome \<Rightarrow> action list" where
  "delay_goroutine r =
     (case r of
        Failed err \<Rightarrow>
          [Println ''in delay goroutine:'' (E (Some err)),
           CancelFunc (Errorf ''in delay goroutine: '' err), Return]
      | Ok resp \<Rightarrow> [Select (''success from delay: '' @ Header_date resp)])"

datatype worker = Status | Delay

fun target :: "worker \<Rightarrow> string" where
  "target Status = ''http://httpbin.org/status/200,200,200,500''"
| "target Delay = ''http://httpbin.org/delay/1''"

fun body :: "worker \<Rightarrow> outcome \<Rightarrow> action list" where
  "body Status = status_goroutine"
| "body Delay = delay_goroutine"

text \<open>
  The program as a transition system over interleaved atomic steps. A worker is either
  running, with the statements left of its current iteration (none: it is at the top of
  the loop, about to call \<^verbatim>\<open>makeRequest\<close>), or it has returned, which also runs its
  deferred \<^verbatim>\<open>wg.Done()\<close>. \<open>calls\<close> records the arguments of the cancel calls in the
  order in which they were made; nothing reads it.
\<close>

datatype wpc = Running "action list" | Returned

datatype mpc = InLoop | AtWait | AtPrint | AtDefer | Exited

type_synonym line = "string \<times> arg"

record state =
  tok :: token
  pcs :: "worker \<Rightarrow> wpc"
  mainpc :: mpc
  out :: "line list"
  calls :: "error option list"

definition init :: state where
  "init = \<lparr>tok = active, pcs = (\<lambda>w. Running []), mainpc = InLoop, out = [], calls = []\<rparr>"

definition set_pc :: "worker \<Rightarrow> wpc \<Rightarrow> state \<Rightarrow> state" where
  "set_pc w p s = s\<lparr>pcs := (pcs s)(w := p)\<rparr>"

definition do_cancel :: "error option \<Rightarrow> state \<Rightarrow> state" where
  "do_cancel c s = s\<lparr>tok := cancelFunc c (tok s), calls := calls s @ [c]\<rparr>"

definition println :: "string \<Rightarrow> arg \<Rightarrow> state \<Rightarrow> state" where
  "println p a s = s\<lparr>out := out s @ [(p, a)]\<rparr>"

text \<open>A worker runs its next statement, when that is not the \<^verbatim>\<open>select\<close>.\<close>

fun exec :: "worker \<Rightarrow> wpc \<Rightarrow> state \<Rightarrow> state option" where
  "exec w (Running (CancelFunc e # k)) s = Some (set_pc w (Running k) (do_cancel (Some e) s))"
| "exec w (Running (Println p a # k)) s = Some (set_pc w (Running k) (println p a s))"
| "exec w (Running (Sleep d # k)) s = Some (set_pc w (Running k) s)"
| "exec w (Running (Return # k)) s = Some (set_pc w Returned s)"
| "exec w (Running (Select m # k)) s = None"
| "exec w (Running []) s = None"
| "exec w Returned s = None"

text \<open>
  The two cases of a worker's \<^verbatim>\<open>select\<close>. The send is a rendezvous with the
  collector, which must be in its own \<^verbatim>\<open>select\<close>; the collector prints what it
  received in the same step. The other case needs the channel of \<^verbatim>\<open>ctx.Done()\<close>
  closed. When both can proceed either may be taken, as the language leaves it: the
  source does not look at the token again after a send or a receive, so a send can
  still be taken once the token is cancelled, as long as the collector is in its loop.
\<close>

fun select_send :: "worker \<Rightarrow> wpc \<Rightarrow> state \<Rightarrow> state option" where
  "select_send w (Running (Select m # k)) s =
     (if mainpc s = InLoop then Some (set_pc w (Running k) (println ''in main:'' (S m) s))
      else None)"
| "select_send w p s = None"

fun select_done :: "worker \<Rightarrow> wpc \<Rightarrow> state \<Rightarrow> state option" where
  "select_done w (Running (Select m # k)) s =
     (if cancelled (tok s) then Some (set_pc w (Running k) s) else None)"
| "select_done w p s = None"

datatype event =
    Call worker outcome
  | Exec worker
  | Send worker
  | Done worker
  | MainDone
  | MainWait
  | MainPrint
  | MainDefer

fun step :: "event \<Rightarrow> state \<Rightarrow> state option" where
  "step (Call w net) s =
     (if pcs s w = Running [] then
        (case makeRequest (tok s) (target w) net of
           None \<Rightarrow> None
         | Some r \<Rightarrow> Some (set_pc w (Running (body w r)) s))
      else None)"
| "step (Exec w) s = exec w (pcs s w) s"
| "step (Send w) s = select_send w (pcs s w) s"
| "step (Done w) s = select_done w (pcs s w) s"
| "step MainDone s =
     (if mainpc s = InLoop \<and> cancelled (tok s)
      then Some ((println ''in main: cancelled!'' (E (Cause (tok s))) s)\<lparr>mainpc := AtWait\<rparr>)
      else None)"
| "step MainWait s =
     (if mainpc s = AtWait \<and> pcs s Status = Returned \<and> pcs s Delay = Returned
      then Some (s\<lparr>mainpc := AtPrint\<rparr>)
      else None)"
| "step MainPrint s =
     (if mainpc s = AtPrint
      then Some ((println ''context cause:'' (E (Cause (tok s))) s)\<lparr>mainpc := AtDefer\<rparr>)
      else None)"
| "step MainDefer s =
     (if mainpc s = AtDefer then Some ((do_cancel None s)\<lparr>mainpc := Exited\<rparr>) else None)"

fun run :: "event list \<Rightarrow> state \<Rightarrow> state option" where
  "run [] s = Some s"
| "run (ev # evs) s = (case step ev s of None \<Rightarrow> None | Some s' \<Rightarrow> run evs s')"

section \<open>The worker as the specification describes it\<close>

text \<open>
  The specification describes one worker, of which the two goroutines are to be
  instances, as a state machine that is terminal on the first failure and on observed
  cancellation. A failed call and the failure status are fatal: the worker cancels with
  a cause naming it and stops. A normal result is published in a race with
  cancellation: when the publish is accepted the worker waits its interval and repeats;
  when cancellation comes first the result is dropped and the worker stops, without
  calling the cancel function. \<open>spec_worker\<close> is the body of that loop, written from
  the specification's words, for comparison with \<open>status_goroutine\<close> and
  \<open>delay_goroutine\<close>. Its last argument says how the race ends: \<open>True\<close> when the
  publish is accepted. The bodies of the two goroutines do not depend on it.
\<close>

definition spec_worker ::
  "string \<Rightarrow> (response \<Rightarrow> string) \<Rightarrow> int \<Rightarrow> outcome \<Rightarrow> bool \<Rightarrow> action list" where
  "spec_worker nm msg interval r accepted =
     (case r of
        Failed err \<Rightarrow> [CancelFunc (Errorf (''in '' @ nm @ '' goroutine: '') err), Return]
      | Ok resp \<Rightarrow>
          if StatusCode resp = StatusInternalServerError
          then [CancelFunc (ErrorsNew ''bad status''), Return]
          else if accepted then [Select (msg resp), Sleep interval]
          else [Select (msg resp), Return])"

section \<open>Auxiliary definitions for the proofs\<close>

text \<open>
  What holds of the token in every state the program reaches: it is the result of the
  cancel calls made so far, the first of which (when there is one) has a cause that is
  not nil, and the collector has left its loop only when the token is cancelled.
\<close>

definition tok_inv :: "state \<Rightarrow> bool" where
  "tok_inv s \<longleftrightarrow>
     tok s = cancel_all (calls s) active
     \<and> (calls s = [] \<or> (\<exists>e cs. calls s = Some e # cs))
     \<and> (cancelled (tok s) \<longleftrightarrow> calls s \<noteq> [])
     \<and> (mainpc s \<noteq> InLoop \<longrightarrow> cancelled (tok s))"

text \<open>
  The arguments printed after a given literal. A worker's remaining statements all
  come from its loop body. \<open>main_inv\<close> says what the collector and the orchestrator
  have printed at each point of \<^verbatim>\<open>main\<close>.
\<close>

definition reports :: "string \<Rightarrow> line list \<Rightarrow> arg list" where
  "reports p ls = map snd (filter (\<lambda>l. fst l = p) ls)"

definition wpc_wf :: "worker \<Rightarrow> wpc \<Rightarrow> bool" where
  "wpc_wf w p = (case p of Returned \<Rightarrow> True | Running k \<Rightarrow> (\<exists>r. set k \<subseteq> set (body w r)))"

definition final_form :: "state \<Rightarrow> bool" where
  "final_form s \<longleftrightarrow>
     (\<exists>pre. out s = pre @ [(''context cause:'', E (Cause (tok s)))]
        \<and> reports ''in main: cancelled!'' pre = [E (Cause (tok s))]
        \<and> reports ''context cause:'' pre = [])"

definition both_returned :: "state \<Rightarrow> bool" where
  "both_returned s \<longleftrightarrow> pcs s Status = Returned \<and> pcs s Delay = Returned"

definition main_inv :: "state \<Rightarrow> bool" where
  "main_inv s \<longleftrightarrow>
     (case mainpc s of
        InLoop \<Rightarrow> reports ''in main: cancelled!'' (out s) = []
                  \<and> reports ''context cause:'' (out s) = []
      | AtWait \<Rightarrow> cancelled (tok s)
                  \<and> reports ''in main: cancelled!'' (out s) = [E (Cause (tok s))]
                  \<and> reports ''context cause:'' (out s) = []
      | AtPrint \<Rightarrow> cancelled (tok s) \<and> both_returned s
                  \<and> reports ''in main: cancelled!'' (out s) = [E (Cause (tok s))]
                  \<and> reports ''context cause:'' (out s) = []
      | AtDefer \<Rightarrow> cancelled (tok s) \<and> both_returned s \<and> final_form s
      | Exited \<Rightarrow> cancelled (tok s) \<and> both_returned s \<and> final_form s)"

definition reach_inv :: "state \<Rightarrow> bool" where
  "reach_inv s \<longleftrightarrow> tok_inv s \<and> main_inv s \<and> (\<forall>w. wpc_wf w (pcs s w))"

text \<open>
  The calls of a worker in a run, and the runs in which every call of the worker fails.
  \<open>failing_pc w s n\<close>: a call of \<open>w\<close> has failed and \<open>w\<close> has \<open>n\<close> statements left
  before it has returned.
\<close>

fun is_call :: "worker \<Rightarrow> event \<Rightarrow> bool" where
  "is_call w (Call w' r) = (w' = w)"
| "is_call w ev = False"

fun call_ok :: "worker \<Rightarrow> event \<Rightarrow> bool" where
  "call_ok w (Call w' (Ok resp)) = (w' = w)"
| "call_ok w ev = False"

definition always_fails :: "worker \<Rightarrow> event list \<Rightarrow> bool" where
  "always_fails w evs = (filter (call_ok w) evs = [])"

definition failing_pc :: "worker \<Rightarrow> state \<Rightarrow> nat \<Rightarrow> bool" where
  "failing_pc w s n \<longleftrightarrow>
     (\<exists>e. pcs s w = Running (body w (Failed e)) \<and> n = length (body w (Failed e)))
     \<or> (\<exists>e. w = Delay \<and> n = 2
           \<and> pcs s w = Running [CancelFunc (Errorf ''in delay goroutine: '' e), Return])
     \<or> (pcs s w = Running [Return] \<and> cancelled (tok s) \<and> n = 1)
     \<or> (pcs s w = Returned \<and> cancelled (tok s) \<and> n = 0)"

definition fail_inv :: "worker \<Rightarrow> event list \<Rightarrow> state \<Rightarrow> bool" where
  "fail_inv w evs s \<longleftrightarrow>
     (filter (is_call w) evs = [] \<and> pcs s w = Running [])
     \<or> (length (filter (is_call w) evs) = 1 \<and> (\<exists>n. failing_pc w s n))"

text \<open>
  The cause a worker passes to the cancel function when its call failed with \<open>err\<close>,
  the steps it takes from the top of its loop when the call fails, and what it prints
  on the way.
\<close>

fun name :: "worker \<Rightarrow> string" where
  "name Status = ''status''"
| "name Delay = ''delay''"

definition failure_cause :: "worker \<Rightarrow> error \<Rightarrow> error" where
  "failure_cause w err = Errorf (''in '' @ name w @ '' goroutine: '') err"

fun fail_path :: "worker \<Rightarrow> error \<Rightarrow> event list" where
  "fail_path Status err = [Call Status (Failed err), Exec Status, Exec Status]"
| "fail_path Delay err = [Call Delay (Failed err), Exec Delay, Exec Delay, Exec Delay]"


text \<open>
  Runs used as examples. In \<open>boom_loop @ boom_rest\<close> the first call of the status
  worker fails with the error \<open>boom\<close> while the delay worker holds a result, which
  it drops. \<open>drop_run\<close> stops when the status worker has cancelled the token and the
  delay worker is still in its \<^verbatim>\<open>select\<close>. In \<open>publish_run\<close> the delay worker
  has a result to send and nothing is cancelled.
\<close>

definition boom_loop :: "event list" where
  "boom_loop =
     [Call Status (Failed (TransportError ''boom'')),
      Call Delay (Ok \<lparr>StatusCode = 200, Header_date = ''D''\<rparr>),
      Exec Status,
      Done Delay,
      Exec Status,
      Call Delay (Failed Canceled),
      MainDone]"

definition boom_rest :: "event list" where
  "boom_rest = [Exec Delay, Exec Delay, Exec Delay, MainWait, MainPrint, MainDefer]"

definition boom_run :: "event list" where
  "boom_run = boom_loop @ boom_rest"

definition publish_run :: "event list" where
  "publish_run = [Call Delay (Ok \<lparr>StatusCode = 200, Header_date = ''D''\<rparr>)]"

definition drop_run :: "event list" where
  "drop_run =
     [Call Delay (Ok \<lparr>StatusCode = 200, Header_date = ''D''\<rparr>),
      Call Status (Failed (TransportError ''boom'')),
      Exec Status]"

text \<open>
  The \<^verbatim>\<open>select\<close> statements a worker has still to run in its current iteration,
  that is, the results it holds and has not yet published or dropped; and the events in
  which the collector receives from a given worker.
\<close>

fun is_select :: "action \<Rightarrow> bool" where
  "is_select (Select m) = True"
| "is_select a = False"



text \<open>
  In \<open>late_run\<close> the status worker holds a result when the delay worker's call fails
  and the delay worker cancels the token; \<open>late_rest\<close> is a continuation.
\<close>

definition late_run :: "event list" where
  "late_run =
     [Call Status (Ok \<lparr>StatusCode = 200, Header_date = ''D''\<rparr>),
      Call Delay (Failed (TransportError ''boom'')),
      Exec Delay,
      Exec Delay]"

definition late_rest :: "event list" where
  "late_rest = [Send Status, Exec Status, Call Status (Failed Canceled)]"

section \<open>Basic facts\<close>

lemmas demo_defs = boom_run_def boom_loop_def boom_rest_def drop_run_def publish_run_def
  late_run_def late_rest_def init_def active_def
  status_goroutine_def delay_goroutine_def makeRequest_def cancelFunc_def Cause_def
  StatusInternalServerError_def

lemma cancelFunc_cancelled [simp]: "cancelled (cancelFunc c t)"
  by (simp add: cancelFunc_def)

lemma cancelFunc_idem: "cancelled t \<Longrightarrow> cancelFunc c t = t"
  by (simp add: cancelFunc_def)

lemma cancel_all_cancelled: "cancelled t \<Longrightarrow> cancel_all cs t = t"
  by (induction cs arbitrary: t) (simp_all add: cancelFunc_idem)

lemma transitions_cancelled: "cancelled t \<Longrightarrow> transitions cs t = 0"
  by (induction cs arbitrary: t) (simp_all add: cancelFunc_idem)

lemma cancel_all_append: "cancel_all (xs @ ys) t = cancel_all ys (cancel_all xs t)"
  by (induction xs arbitrary: t) simp_all

lemma cancel_all_first: "cancel_all (c # cs) t = cancelFunc c t"
  by (simp add: cancel_all_cancelled)

lemma transitions_first: "transitions (c # cs) active = 1"
  by (simp add: transitions_cancelled active_def)

lemma set_pc_simps [simp]:
  "tok (set_pc w p s) = tok s" "mainpc (set_pc w p s) = mainpc s"
  "out (set_pc w p s) = out s" "calls (set_pc w p s) = calls s"
  "pcs (set_pc w p s) = (pcs s)(w := p)"
  by (simp_all add: set_pc_def)

lemma do_cancel_simps [simp]:
  "tok (do_cancel c s) = cancelFunc c (tok s)" "mainpc (do_cancel c s) = mainpc s"
  "out (do_cancel c s) = out s" "calls (do_cancel c s) = calls s @ [c]"
  "pcs (do_cancel c s) = pcs s"
  by (simp_all add: do_cancel_def)

lemma println_simps [simp]:
  "tok (println p a s) = tok s" "mainpc (println p a s) = mainpc s"
  "out (println p a s) = out s @ [(p, a)]" "calls (println p a s) = calls s"
  "pcs (println p a s) = pcs s"
  by (simp_all add: println_def)

lemma exec_Some:
  assumes "exec w p s = Some s'"
  obtains (cancel) e k where "p = Running (CancelFunc e # k)"
      "s' = set_pc w (Running k) (do_cancel (Some e) s)"
  | (print) q a k where "p = Running (Println q a # k)"
      "s' = set_pc w (Running k) (println q a s)"
  | (sleep) d k where "p = Running (Sleep d # k)" "s' = set_pc w (Running k) s"
  | (return) k where "p = Running (Return # k)" "s' = set_pc w Returned s"
  using assms by (cases "(w, p, s)" rule: exec.cases) auto

lemma select_send_Some:
  assumes "select_send w p s = Some s'"
  obtains m k where "p = Running (Select m # k)" "mainpc s = InLoop"
      "s' = set_pc w (Running k) (println ''in main:'' (S m) s)"
  using assms by (cases "(w, p, s)" rule: select_send.cases) (auto split: if_splits)

lemma select_done_Some:
  assumes "select_done w p s = Some s'"
  obtains m k where "p = Running (Select m # k)" "cancelled (tok s)"
      "s' = set_pc w (Running k) s"
  using assms by (cases "(w, p, s)" rule: select_done.cases) (auto split: if_splits)

lemma run_append: "run (xs @ ys) s = (case run xs s of None \<Rightarrow> None | Some s' \<Rightarrow> run ys s')"
  by (induction xs arbitrary: s) (simp_all split: option.splits)

lemma run_snoc:
  "run (evs @ [ev]) s = Some s' \<longleftrightarrow> (\<exists>s0. run evs s = Some s0 \<and> step ev s0 = Some s')"
  by (simp add: run_append split: option.splits)

lemma step_Some:
  assumes "step ev s = Some s'"
  obtains (call) w net r where "ev = Call w net" "pcs s w = Running []"
      "makeRequest (tok s) (target w) net = Some r" "s' = set_pc w (Running (body w r)) s"
  | (cancel) w e k where "ev = Exec w" "pcs s w = Running (CancelFunc e # k)"
      "s' = set_pc w (Running k) (do_cancel (Some e) s)"
  | (print) w q a k where "ev = Exec w" "pcs s w = Running (Println q a # k)"
      "s' = set_pc w (Running k) (println q a s)"
  | (sleep) w d k where "ev = Exec w" "pcs s w = Running (Sleep d # k)"
      "s' = set_pc w (Running k) s"
  | (return) w k where "ev = Exec w" "pcs s w = Running (Return # k)"
      "s' = set_pc w Returned s"
  | (send) w m k where "ev = Send w" "pcs s w = Running (Select m # k)" "mainpc s = InLoop"
      "s' = set_pc w (Running k) (println ''in main:'' (S m) s)"
  | (drop) w m k where "ev = Done w" "pcs s w = Running (Select m # k)" "cancelled (tok s)"
      "s' = set_pc w (Running k) s"
  | (main_done) "ev = MainDone" "mainpc s = InLoop" "cancelled (tok s)"
      "s' = (println ''in main: cancelled!'' (E (Cause (tok s))) s)\<lparr>mainpc := AtWait\<rparr>"
  | (main_wait) "ev = MainWait" "mainpc s = AtWait" "pcs s Status = Returned"
      "pcs s Delay = Returned" "s' = s\<lparr>mainpc := AtPrint\<rparr>"
  | (main_print) "ev = MainPrint" "mainpc s = AtPrint"
      "s' = (println ''context cause:'' (E (Cause (tok s))) s)\<lparr>mainpc := AtDefer\<rparr>"
  | (main_defer) "ev = MainDefer" "mainpc s = AtDefer"
      "s' = (do_cancel None s)\<lparr>mainpc := Exited\<rparr>"
proof (cases ev)
  case (Call w net)
  with assms show ?thesis
    by (auto split: if_splits option.splits intro: call)
next
  case (Exec w)
  with assms have "exec w (pcs s w) s = Some s'" by simp
  then show ?thesis
    by (cases rule: exec_Some) (auto intro: cancel print sleep return simp: Exec)
next
  case (Send w)
  with assms have "select_send w (pcs s w) s = Some s'" by simp
  then show ?thesis
    by (cases rule: select_send_Some) (auto intro: send simp: Send)
next
  case (Done w)
  with assms have "select_done w (pcs s w) s = Some s'" by simp
  then show ?thesis
    by (cases rule: select_done_Some) (auto intro: drop simp: Done)
next
  case MainDone
  with assms show ?thesis by (auto split: if_splits intro: main_done)
next
  case MainWait
  with assms show ?thesis by (auto split: if_splits intro: main_wait)
next
  case MainPrint
  with assms show ?thesis by (auto split: if_splits intro: main_print)
next
  case MainDefer
  with assms show ?thesis by (auto split: if_splits intro: main_defer)
qed

subsection \<open>The token and the calls made\<close>

lemma tok_inv_init: "tok_inv init"
  by (simp add: tok_inv_def init_def active_def)

lemma tok_inv_step: "tok_inv s \<Longrightarrow> step ev s = Some s' \<Longrightarrow> tok_inv s'"
  by (erule step_Some) (auto simp: tok_inv_def cancel_all_append cancelFunc_idem)

lemma tok_inv_run: "tok_inv s \<Longrightarrow> run evs s = Some s' \<Longrightarrow> tok_inv s'"
  by (induction evs arbitrary: s) (auto split: option.splits dest: tok_inv_step)

lemma cancelled_Cause:
  assumes "tok_inv s" "cancelled (tok s)"
  shows "\<exists>e. Cause (tok s) = Some e"
proof -
  from assms obtain e cs where "calls s = Some e # cs" by (auto simp: tok_inv_def)
  with assms(1) have "tok s = cancel_all (Some e # cs) active" by (simp add: tok_inv_def)
  then have "tok s = cancelFunc (Some e) active" by (simp only: cancel_all_first)
  then show ?thesis by (simp add: cancelFunc_def active_def Cause_def)
qed

subsection \<open>What has been printed\<close>

lemma reports_simps [simp]:
  "reports p [] = []"
  "reports p (xs @ ys) = reports p xs @ reports p ys"
  "reports p ((q, a) # xs) = (if q = p then a # reports p xs else reports p xs)"
  by (simp_all add: reports_def)

lemma wpc_wf_simps [simp]: "wpc_wf w Returned" "wpc_wf w (Running [])"
  by (simp_all add: wpc_wf_def)

lemma wpc_wf_body [simp]: "wpc_wf w (Running (body w r))"
  by (auto simp: wpc_wf_def)

lemma wpc_wf_tail: "wpc_wf w (Running (a # k)) \<Longrightarrow> wpc_wf w (Running k)"
  by (auto simp: wpc_wf_def)

lemma wpc_wf_Println:
  assumes "wpc_wf w (Running (Println q a # k))"
  shows "q = ''in delay goroutine:''"
proof -
  from assms obtain r where "Println q a \<in> set (body w r)"
    by (auto simp: wpc_wf_def)
  then show ?thesis
    by (cases w; cases r)
       (auto simp: status_goroutine_def delay_goroutine_def split: if_splits)
qed

lemma wf_step:
  assumes "\<forall>w. wpc_wf w (pcs s w)" "step ev s = Some s'"
  shows "\<forall>w. wpc_wf w (pcs s' w)"
proof -
  have tl: "\<And>w a k. pcs s w = Running (a # k) \<Longrightarrow> wpc_wf w (Running k)"
    using assms(1) by (metis wpc_wf_tail)
  from assms(2) show ?thesis
    by (cases rule: step_Some) (use assms(1) tl in auto)
qed


lemma main_inv_init: "main_inv init"
  by (simp add: main_inv_def init_def)

lemma both_returned_no_pc:
  "both_returned s \<Longrightarrow> pcs s w = Running k \<Longrightarrow> False"
  by (cases w) (simp_all add: both_returned_def)

lemma main_inv_worker_step:
  assumes "main_inv s" and "mainpc s' = mainpc s" and "tok s' = tok s"
    and "pcs s w \<noteq> Returned"
    and "pcs s' = (pcs s)(w := p)"
    and "out s' = out s \<or> (\<exists>q a. out s' = out s @ [(q, a)]
           \<and> q \<noteq> ''in main: cancelled!'' \<and> q \<noteq> ''context cause:'')"
  shows "main_inv s'"
proof (cases "mainpc s")
  case InLoop
  with assms show ?thesis by (auto simp: main_inv_def)
next
  case AtWait
  with assms show ?thesis by (auto simp: main_inv_def)
next
  case AtPrint
  with assms(1) have "both_returned s" by (simp add: main_inv_def)
  with assms(4) show ?thesis by (cases w) (simp_all add: both_returned_def)
next
  case AtDefer
  with assms(1) have "both_returned s" by (simp add: main_inv_def)
  with assms(4) show ?thesis by (cases w) (simp_all add: both_returned_def)
next
  case Exited
  with assms(1) have "both_returned s" by (simp add: main_inv_def)
  with assms(4) show ?thesis by (cases w) (simp_all add: both_returned_def)
qed

lemma main_inv_step:
  assumes "main_inv s" and wf: "\<forall>w. wpc_wf w (pcs s w)" and "step ev s = Some s'"
  shows "main_inv s'"
  using assms(3)
proof (cases rule: step_Some)
  case (call w net r)
  with assms(1) show ?thesis by (intro main_inv_worker_step [of s s' w]) simp_all
next
  case (cancel w e k)
  show ?thesis
  proof (cases "cancelled (tok s)")
    case True
    with cancel assms(1) show ?thesis
      by (intro main_inv_worker_step [of s s' w]) (simp_all add: cancelFunc_idem)
  next
    case False
    with assms(1) have "mainpc s = InLoop" by (cases "mainpc s") (simp_all add: main_inv_def)
    with cancel assms(1) show ?thesis by (simp add: main_inv_def)
  qed
next
  case (print w q a k)
  with wf have "wpc_wf w (Running (Println q a # k))" by metis
  then have "q = ''in delay goroutine:''" by (rule wpc_wf_Println)
  with print assms(1) show ?thesis by (intro main_inv_worker_step [of s s' w]) simp_all
next
  case (sleep w d k)
  with assms(1) show ?thesis by (intro main_inv_worker_step [of s s' w]) simp_all
next
  case (return w k)
  have "main_inv (s\<lparr>pcs := (pcs s)(w := Returned)\<rparr>)"
    using assms(1) by (cases "mainpc s") (simp_all add: main_inv_def both_returned_def final_form_def)
  with return show ?thesis by (simp add: set_pc_def)
next
  case (send w m k)
  with assms(1) show ?thesis by (intro main_inv_worker_step [of s s' w]) simp_all
next
  case (drop w m k)
  with assms(1) show ?thesis by (intro main_inv_worker_step [of s s' w]) simp_all
next
  case main_done
  with assms(1) show ?thesis by (simp add: main_inv_def)
next
  case main_wait
  with assms(1) show ?thesis by (simp add: main_inv_def both_returned_def)
next
  case main_print
  with assms(1) show ?thesis by (simp add: main_inv_def both_returned_def final_form_def)
next
  case main_defer
  with assms(1) show ?thesis
    by (simp add: main_inv_def both_returned_def final_form_def cancelFunc_idem)
qed

lemma reach_inv_init: "reach_inv init"
  by (simp add: reach_inv_def tok_inv_init main_inv_init) (simp add: init_def)

lemma reach_inv_step: "reach_inv s \<Longrightarrow> step ev s = Some s' \<Longrightarrow> reach_inv s'"
  unfolding reach_inv_def using tok_inv_step main_inv_step wf_step by blast

lemma reach_inv_run: "reach_inv s \<Longrightarrow> run evs s = Some s' \<Longrightarrow> reach_inv s'"
proof (induction evs arbitrary: s)
  case Nil
  then show ?case by simp
next
  case (Cons ev evs)
  then show ?case by (auto split: option.splits dest: reach_inv_step)
qed

lemma reachable_inv: "run evs init = Some s \<Longrightarrow> reach_inv s"
  using reach_inv_init by (rule reach_inv_run)

lemma after_loop_step:
  assumes "\<forall>w. wpc_wf w (pcs s w)" "mainpc s \<noteq> InLoop" "step ev s = Some s'"
  shows "mainpc s' \<noteq> InLoop \<and> reports ''in main:'' (out s') = reports ''in main:'' (out s)
    \<and> reports ''in main: cancelled!'' (out s') = reports ''in main: cancelled!'' (out s)"
  using assms(3)
proof (cases rule: step_Some)
  case (print w q a k)
  with assms(1) have "wpc_wf w (Running (Println q a # k))" by metis
  then have "q = ''in delay goroutine:''" by (rule wpc_wf_Println)
  with print assms(2) show ?thesis by simp
qed (use assms(2) in simp_all)

lemma after_loop_run:
  assumes "\<forall>w. wpc_wf w (pcs s w)" "mainpc s \<noteq> InLoop" "run evs s = Some s'"
  shows "mainpc s' \<noteq> InLoop \<and> reports ''in main:'' (out s') = reports ''in main:'' (out s)
    \<and> reports ''in main: cancelled!'' (out s') = reports ''in main: cancelled!'' (out s)"
  using assms
proof (induction evs arbitrary: s)
  case Nil
  then show ?case by simp
next
  case (Cons ev evs)
  from Cons.prems(3) obtain s1 where s1: "step ev s = Some s1" "run evs s1 = Some s'"
    by (auto split: option.splits)
  from Cons.prems(1) s1(1) have wf1: "\<forall>w. wpc_wf w (pcs s1 w)" by (rule wf_step)
  from after_loop_step [OF Cons.prems(1,2) s1(1)] Cons.IH [OF wf1 _ s1(2)]
  show ?case by simp
qed

subsection \<open>A worker whose calls fail\<close>

lemma body_Failed_nonempty [simp]:
  "body w (Failed e) \<noteq> []" "[] \<noteq> body w (Failed e)"
  by (cases w; simp add: status_goroutine_def delay_goroutine_def)+

lemma step_cancelled_mono: "step ev s = Some s' \<Longrightarrow> cancelled (tok s) \<Longrightarrow> cancelled (tok s')"
  by (erule step_Some) (simp_all add: cancelFunc_idem)

lemma step_other_pc:
  assumes "step ev s = Some s'"
  shows "pcs s' w = pcs s w \<or> ev = Exec w \<or> ev = Send w \<or> ev = Done w \<or> (\<exists>r. ev = Call w r)"
  using assms by (cases rule: step_Some) auto

lemma failing_pc_other:
  assumes "failing_pc w s n" "pcs s' w = pcs s w" "cancelled (tok s) \<Longrightarrow> cancelled (tok s')"
  shows "failing_pc w s' n"
  using assms unfolding failing_pc_def by metis

lemma fail_inv_step:
  assumes "fail_inv w evs s" "step ev s = Some s'" "\<not> call_ok w ev"
  shows "fail_inv w (evs @ [ev]) s'"
proof (cases "pcs s' w = pcs s w \<and> \<not> is_call w ev")
  case True
  with assms(1) step_cancelled_mono [OF assms(2)] show ?thesis
    unfolding fail_inv_def by (auto intro: failing_pc_other)
next
  case False
  from assms(2) show ?thesis
  proof (cases rule: step_Some)
    case (call w' net r)
    show ?thesis
    proof (cases "w' = w")
      case True
      with call assms(3) obtain e where e: "net = Failed e" by (cases net) auto
      with call True have "r = Failed e" by (simp add: makeRequest_def)
      with call True e assms(1) show ?thesis
        by (auto simp: fail_inv_def failing_pc_def)
    next
      case False
      with call \<open>\<not> (pcs s' w = pcs s w \<and> \<not> is_call w ev)\<close> show ?thesis by auto
    qed
  next
    case (cancel w' e k)
    with False have w: "w' = w" by (auto split: if_splits)
    with cancel assms(1) show ?thesis
      by (cases w) (auto simp: fail_inv_def failing_pc_def status_goroutine_def delay_goroutine_def)
  next
    case (print w' q a k)
    with False have w: "w' = w" by (auto split: if_splits)
    with print assms(1) show ?thesis
      by (cases w) (auto simp: fail_inv_def failing_pc_def status_goroutine_def delay_goroutine_def)
  next
    case (sleep w' d k)
    with False have w: "w' = w" by (auto split: if_splits)
    with sleep assms(1) show ?thesis
      by (cases w) (auto simp: fail_inv_def failing_pc_def status_goroutine_def delay_goroutine_def)
  next
    case (return w' k)
    with False have w: "w' = w" by (auto split: if_splits)
    with return assms(1) show ?thesis
      by (cases w) (auto simp: fail_inv_def failing_pc_def status_goroutine_def delay_goroutine_def)
  next
    case (send w' m k)
    with False have w: "w' = w" by (auto split: if_splits)
    with send assms(1) show ?thesis
      by (cases w) (auto simp: fail_inv_def failing_pc_def status_goroutine_def delay_goroutine_def)
  next
    case (drop w' m k)
    with False have w: "w' = w" by (auto split: if_splits)
    with drop assms(1) show ?thesis
      by (cases w) (auto simp: fail_inv_def failing_pc_def status_goroutine_def delay_goroutine_def)
  qed (use False in auto)
qed

lemma fail_inv_run:
  "run evs init = Some s \<Longrightarrow> always_fails w evs \<Longrightarrow> fail_inv w evs s"
proof (induction evs arbitrary: s rule: rev_induct)
  case Nil
  then show ?case by (auto simp: fail_inv_def init_def)
next
  case (snoc ev evs)
  from snoc.prems(1) obtain s0 where s0: "run evs init = Some s0" "step ev s0 = Some s"
    by (auto simp: run_snoc)
  from snoc.prems(2) have "always_fails w evs" "\<not> call_ok w ev"
    by (auto simp: always_fails_def split: if_splits)
  with snoc.IH s0 show ?case by (auto intro: fail_inv_step)
qed

lemma failing_pc_finishes:
  assumes "failing_pc w s n"
  shows "n \<le> 3 \<and> (\<exists>s'. run (replicate n (Exec w)) s = Some s' \<and> pcs s' w = Returned
           \<and> cancelled (tok s'))"
  using assms unfolding failing_pc_def
  by (cases w)
     (auto simp: status_goroutine_def delay_goroutine_def numeral_2_eq_2 numeral_3_eq_3)

lemma failing_pc_Returned: "failing_pc w s n \<Longrightarrow> pcs s w = Returned \<Longrightarrow> cancelled (tok s)"
  by (auto simp: failing_pc_def)

lemma step_Returned: "step ev s = Some s' \<Longrightarrow> pcs s w = Returned \<Longrightarrow> pcs s' w = Returned"
  by (erule step_Some) auto

lemma run_Returned: "run evs s = Some s' \<Longrightarrow> pcs s w = Returned \<Longrightarrow> pcs s' w = Returned"
  by (induction evs arbitrary: s) (auto split: option.splits dest: step_Returned)

subsection \<open>Results held when the token is cancelled\<close>

lemma pending_body [simp]: "length (filter is_select (body w r)) \<le> Suc 0"
  by (cases w; cases r) (simp_all add: status_goroutine_def delay_goroutine_def)

lemma pending_body_Failed [simp]: "filter is_select (body w (Failed e)) = []"
  by (cases w) (simp_all add: status_goroutine_def delay_goroutine_def)







section \<open>The cancellation token\<close>

text \<open>
  Claim C1. Whatever cancel calls are made on a fresh token, in the order in which they
  take effect, the first one alone changes the token from active to cancelled: the token
  after all calls is the token after the first call, and exactly one call is a
  transition. When the first call passes a cause that is not nil, that cause is what
  \<^verbatim>\<open>context.Cause\<close> returns afterwards, whatever the later calls pass (nil
  included). In every state the program reaches, the shared token is the result of the
  cancel calls made so far, and the first of them, when there is one, passed a cause
  that is not nil: the deferred \<^verbatim>\<open>cancelFunc(nil)\<close> is never the first call.
\<close>

theorem first_cause_wins:
  "(\<forall>c cs. cancel_all (c # cs) active = cancelFunc c active
          \<and> transitions (c # cs) active = 1)
   \<and> (\<forall>e cs. cancelled (cancel_all (Some e # cs) active)
          \<and> Cause (cancel_all (Some e # cs) active) = Some e)
   \<and> (run evs init = Some s \<longrightarrow>
          tok s = cancel_all (calls s) active
          \<and> (calls s = [] \<or> (\<exists>e cs. calls s = Some e # cs)))"
proof (intro conjI allI impI)
  fix c cs
  show "cancel_all (c # cs) active = cancelFunc c active"
    by (rule cancel_all_first)
  show "transitions (c # cs) active = 1"
    by (rule transitions_first)
next
  fix e cs
  show "cancelled (cancel_all (Some e # cs) active)"
    by (simp add: cancel_all_cancelled)
  show "Cause (cancel_all (Some e # cs) active) = Some e"
    by (simp add: cancel_all_cancelled) (simp add: cancelFunc_def active_def Cause_def)
next
  assume "run evs init = Some s"
  with tok_inv_init have "tok_inv s" by (rule tok_inv_run)
  then show "tok s = cancel_all (calls s) active"
    and "calls s = [] \<or> (\<exists>e cs. calls s = Some e # cs)"
    by (simp_all add: tok_inv_def)
qed

theorem first_cause_wins_witness:
  "\<exists>s. run boom_run init = Some s
   \<and> calls s =
       [Some (Errorf ''in status goroutine: '' (TransportError ''boom'')),
        Some (Errorf ''in delay goroutine: '' Canceled), None]
   \<and> tok s =
       \<lparr>cancelled = True, cause = Some (Errorf ''in status goroutine: '' (TransportError ''boom''))\<rparr>"
proof -
  have "\<exists>s. run boom_run init = Some s
     \<and> calls s = [Some (Errorf ''in status goroutine: '' (TransportError ''boom'')),
        Some (Errorf ''in delay goroutine: '' Canceled), None]"
    by (simp add: demo_defs)
  then obtain s where r: "run boom_run init = Some s"
    and c: "calls s = [Some (Errorf ''in status goroutine: '' (TransportError ''boom'')),
        Some (Errorf ''in delay goroutine: '' Canceled), None]"
    by blast
  from first_cause_wins [of boom_run s] r
  have t: "tok s = cancel_all (calls s) active" by blast
  have "tok s = \<lparr>cancelled = True,
      cause = Some (Errorf ''in status goroutine: '' (TransportError ''boom''))\<rparr>"
    unfolding t c by (simp add: cancelFunc_def active_def)
  with r c show ?thesis by blast
qed

section \<open>A result published in the race with cancellation\<close>




section \<open>Failures are fatal and not retried\<close>

text \<open>
  Claim C3 as stated fails for the delay worker: it never looks at the status code. A
  response with status 500 is published like any other, the token stays active, and
  the worker is back at the top of its loop for the next call.
\<close>

theorem delay_worker_ignores_status_500:
  "\<exists>s1 s2. step (Call Delay (Ok \<lparr>StatusCode = 500, Header_date = ''D''\<rparr>)) init = Some s1
     \<and> pcs s1 Delay = Running [Select ''success from delay: D'']
     \<and> \<not> cancelled (tok s1) \<and> calls s1 = []
     \<and> step (Send Delay) s1 = Some s2
     \<and> pcs s2 Delay = Running []
     \<and> out s2 = [(''in main:'', S ''success from delay: D'')]
     \<and> \<not> cancelled (tok s2) \<and> calls s2 = []"
  by (simp add: init_def active_def makeRequest_def delay_goroutine_def)

text \<open>
  Claim C3, amended. A worker at the top of its loop whose call fails (the request
  could not be built or completed) calls the cancel function with a cause that names
  the worker and wraps the error, and returns; from then on it never calls again.
  The status worker does the same, with the cause \<open>bad status\<close>, when the response has
  status 500. The delay worker publishes any response, whatever its status.
\<close>

theorem failure_cancels_and_stops:
  assumes "pcs s w = Running []"
  shows "(\<exists>s'. run (fail_path w err) s = Some s'
            \<and> pcs s' w = Returned
            \<and> calls s' = calls s @ [Some (failure_cause w err)]
            \<and> tok s' = cancelFunc (Some (failure_cause w err)) (tok s)
            \<and> (\<forall>evs s''. run evs s' = Some s'' \<longrightarrow>
                  pcs s'' w = Returned \<and> (\<forall>r. step (Call w r) s'' = None)))
    \<and> (w = Status \<and> StatusCode resp = StatusInternalServerError \<and> \<not> cancelled (tok s) \<longrightarrow>
         (\<exists>s'. run [Call Status (Ok resp), Exec Status, Exec Status] s = Some s'
            \<and> pcs s' Status = Returned
            \<and> calls s' = calls s @ [Some (ErrorsNew ''bad status'')]
            \<and> tok s' = \<lparr>cancelled = True, cause = Some (ErrorsNew ''bad status'')\<rparr>
            \<and> (\<forall>evs s''. run evs s' = Some s'' \<longrightarrow>
                  pcs s'' Status = Returned \<and> (\<forall>r. step (Call Status r) s'' = None))))
    \<and> (w = Delay \<and> \<not> cancelled (tok s) \<longrightarrow>
         step (Call Delay (Ok resp)) s =
           Some (set_pc Delay (Running [Select (''success from delay: '' @ Header_date resp)]) s))"
proof (intro conjI impI)
  have "\<exists>s'. run (fail_path w err) s = Some s'
            \<and> pcs s' w = Returned
            \<and> calls s' = calls s @ [Some (failure_cause w err)]
            \<and> tok s' = cancelFunc (Some (failure_cause w err)) (tok s)"
    using assms
    by (cases w)
       (simp_all add: makeRequest_def status_goroutine_def delay_goroutine_def failure_cause_def)
  then obtain s' where s': "run (fail_path w err) s = Some s'" "pcs s' w = Returned"
     "calls s' = calls s @ [Some (failure_cause w err)]"
     "tok s' = cancelFunc (Some (failure_cause w err)) (tok s)" by blast
  have "\<forall>evs s''. run evs s' = Some s'' \<longrightarrow>
                  pcs s'' w = Returned \<and> (\<forall>r. step (Call w r) s'' = None)"
    using s'(2) by (auto dest: run_Returned)
  with s' show "\<exists>s'. run (fail_path w err) s = Some s'
            \<and> pcs s' w = Returned
            \<and> calls s' = calls s @ [Some (failure_cause w err)]
            \<and> tok s' = cancelFunc (Some (failure_cause w err)) (tok s)
            \<and> (\<forall>evs s''. run evs s' = Some s'' \<longrightarrow>
                  pcs s'' w = Returned \<and> (\<forall>r. step (Call w r) s'' = None))"
    by blast
next
  assume a: "w = Status \<and> StatusCode resp = StatusInternalServerError \<and> \<not> cancelled (tok s)"
  with assms have "\<exists>s'. run [Call Status (Ok resp), Exec Status, Exec Status] s = Some s'
            \<and> pcs s' Status = Returned
            \<and> calls s' = calls s @ [Some (ErrorsNew ''bad status'')]
            \<and> tok s' = \<lparr>cancelled = True, cause = Some (ErrorsNew ''bad status'')\<rparr>"
    by (simp add: makeRequest_def status_goroutine_def cancelFunc_def)
  then obtain s' where s': "run [Call Status (Ok resp), Exec Status, Exec Status] s = Some s'"
     "pcs s' Status = Returned"
     "calls s' = calls s @ [Some (ErrorsNew ''bad status'')]"
     "tok s' = \<lparr>cancelled = True, cause = Some (ErrorsNew ''bad status'')\<rparr>" by blast
  have "\<forall>evs s''. run evs s' = Some s'' \<longrightarrow>
                  pcs s'' Status = Returned \<and> (\<forall>r. step (Call Status r) s'' = None)"
    using s'(2) by (auto dest: run_Returned)
  with s' show "\<exists>s'. run [Call Status (Ok resp), Exec Status, Exec Status] s = Some s'
            \<and> pcs s' Status = Returned
            \<and> calls s' = calls s @ [Some (ErrorsNew ''bad status'')]
            \<and> tok s' = \<lparr>cancelled = True, cause = Some (ErrorsNew ''bad status'')\<rparr>
            \<and> (\<forall>evs s''. run evs s' = Some s'' \<longrightarrow>
                  pcs s'' Status = Returned \<and> (\<forall>r. step (Call Status r) s'' = None))"
    by blast
next
  assume "w = Delay \<and> \<not> cancelled (tok s)"
  with assms show "step (Call Delay (Ok resp)) s =
      Some (set_pc Delay (Running [Select (''success from delay: '' @ Header_date resp)]) s)"
    by (simp add: makeRequest_def delay_goroutine_def)
qed

theorem failure_cancels_and_stops_witness:
  "(\<exists>s' s''. run (fail_path Status (TransportError ''boom'')) init = Some s'
       \<and> pcs s' Status = Returned
       \<and> tok s' = \<lparr>cancelled = True,
            cause = Some (Errorf ''in status goroutine: '' (TransportError ''boom''))\<rparr>
       \<and> run (fail_path Delay Canceled) s' = Some s''
       \<and> pcs s'' Status = Returned
       \<and> step (Call Status (Failed Canceled)) s'' = None)
   \<and> (\<exists>s'. run [Call Status (Ok \<lparr>StatusCode = 500, Header_date = ''D''\<rparr>), Exec Status,
              Exec Status] init = Some s'
       \<and> tok s' = \<lparr>cancelled = True, cause = Some (ErrorsNew ''bad status'')\<rparr>)
   \<and> step (Call Delay (Ok \<lparr>StatusCode = 500, Header_date = ''D''\<rparr>)) init =
        Some (set_pc Delay (Running [Select ''success from delay: D'']) init)"
proof -
  have i: "pcs init Status = Running []" "pcs init Delay = Running []"
    "\<not> cancelled (tok init)"
    "StatusCode \<lparr>StatusCode = 500, Header_date = ''D''\<rparr> = StatusInternalServerError"
    by (simp_all add: init_def active_def StatusInternalServerError_def)
  have c: "cancelFunc (Some (failure_cause Status (TransportError ''boom''))) (tok init) =
      \<lparr>cancelled = True,
       cause = Some (Errorf ''in status goroutine: '' (TransportError ''boom''))\<rparr>"
    by (simp add: cancelFunc_def init_def active_def failure_cause_def)
  from failure_cancels_and_stops
    [OF i(1), of "TransportError ''boom''" "\<lparr>StatusCode = 500, Header_date = ''D''\<rparr>"] i(3,4)
  obtain s' where s': "run (fail_path Status (TransportError ''boom'')) init = Some s'"
       "pcs s' Status = Returned"
       "tok s' = cancelFunc (Some (failure_cause Status (TransportError ''boom''))) (tok init)"
       "\<forall>evs s''. run evs s' = Some s'' \<longrightarrow>
          pcs s'' Status = Returned \<and> (\<forall>r. step (Call Status r) s'' = None)"
    and b: "\<exists>s'. run [Call Status (Ok \<lparr>StatusCode = 500, Header_date = ''D''\<rparr>), Exec Status,
              Exec Status] init = Some s'
       \<and> tok s' = \<lparr>cancelled = True, cause = Some (ErrorsNew ''bad status'')\<rparr>"
    by blast
  have "\<exists>s''. run (fail_path Status (TransportError ''boom'') @ fail_path Delay Canceled) init
      = Some s''"
    by (simp add: demo_defs)
  then obtain s'' where
    "run (fail_path Status (TransportError ''boom'') @ fail_path Delay Canceled) init = Some s''"
    by blast
  then have s'': "run (fail_path Delay Canceled) s' = Some s''"
    unfolding run_append s'(1) by (simp only: option.case)
  with s'(4) have e: "pcs s'' Status = Returned" "step (Call Status (Failed Canceled)) s'' = None"
    by blast+
  from failure_cancels_and_stops
    [OF i(2), of Canceled "\<lparr>StatusCode = 500, Header_date = ''D''\<rparr>"] i(3)
  have d: "step (Call Delay (Ok \<lparr>StatusCode = 500, Header_date = ''D''\<rparr>)) init =
        Some (set_pc Delay (Running [Select ''success from delay: D'']) init)"
    by simp
  from s'(1,2) s'(3) [unfolded c] s'' e b d show ?thesis by blast
qed

section \<open>The two worker loops compared\<close>

text \<open>
  Claim C4 as stated fails: neither goroutine is the specification's worker, whatever
  the name, the message and the interval. On a response with status 500 the worker of
  the specification cancels and the delay goroutine publishes. After a publish lost to
  cancellation the worker of the specification stops and the status goroutine, like the
  delay goroutine, goes on with its iteration.
\<close>

theorem workers_differ_beyond_parameters:
  "\<not> (\<exists>nm msg interval accepted.
         delay_goroutine = (\<lambda>r. spec_worker nm msg interval r accepted))
   \<and> \<not> (\<exists>nm msg interval. \<forall>accepted.
         status_goroutine = (\<lambda>r. spec_worker nm msg interval r accepted))"
proof (intro conjI notI)
  assume "\<exists>nm msg interval accepted.
      delay_goroutine = (\<lambda>r. spec_worker nm msg interval r accepted)"
  then obtain nm msg interval accepted
    where "delay_goroutine = (\<lambda>r. spec_worker nm msg interval r accepted)" by blast
  then have "delay_goroutine (Ok \<lparr>StatusCode = 500, Header_date = ''D''\<rparr>)
      = spec_worker nm msg interval (Ok \<lparr>StatusCode = 500, Header_date = ''D''\<rparr>) accepted"
    by (simp add: fun_eq_iff)
  then show False
    by (simp add: delay_goroutine_def spec_worker_def StatusInternalServerError_def)
next
  assume "\<exists>nm msg interval. \<forall>accepted.
      status_goroutine = (\<lambda>r. spec_worker nm msg interval r accepted)"
  then obtain nm msg interval
    where "status_goroutine = (\<lambda>r. spec_worker nm msg interval r False)" by blast
  then have "status_goroutine (Ok \<lparr>StatusCode = 200, Header_date = ''D''\<rparr>)
      = spec_worker nm msg interval (Ok \<lparr>StatusCode = 200, Header_date = ''D''\<rparr>) False"
    by (simp add: fun_eq_iff)
  then show False
    by (simp add: status_goroutine_def spec_worker_def StatusInternalServerError_def)
qed

text \<open>
  Claim C4, amended. The status goroutine does what the specification's worker does,
  with the interval of one second, whenever the call fails, the status is 500 or the
  publish is accepted; after a publish lost to cancellation the specification's worker
  stops, while the status goroutine sleeps and loops as after an accepted one. The
  delay goroutine shares with it the call, the fatal transport failure with a cause
  naming the worker, and the publish in a race with cancellation, after which it too
  goes on whichever case was taken; it differs in more than the target and the
  interval: it prints the error before it cancels, it publishes every response whatever
  its status (the message carries the response's date header), and it does not wait
  between iterations. The two targets are different.
\<close>

theorem worker_loops_compared:
  "status_goroutine r =
     spec_worker ''status'' (\<lambda>resp. ''success from status'') (1 * Second) r True
   \<and> spec_worker nm msg interval (Ok resp) False =
       (if StatusCode resp = StatusInternalServerError
        then [CancelFunc (ErrorsNew ''bad status''), Return]
        else [Select (msg resp), Return])
   \<and> status_goroutine (Ok resp) =
       (if StatusCode resp = StatusInternalServerError
        then [CancelFunc (ErrorsNew ''bad status''), Return]
        else [Select ''success from status'', Sleep (1 * Second)])
   \<and> delay_goroutine (Failed err) =
       Println ''in delay goroutine:'' (E (Some err))
         # spec_worker ''delay'' msg interval (Failed err) accepted
   \<and> delay_goroutine (Ok resp) = [Select (''success from delay: '' @ Header_date resp)]
   \<and> spec_worker ''delay'' (\<lambda>resp. ''success from delay: '' @ Header_date resp) interval
        (Ok resp) True
      = (if StatusCode resp = StatusInternalServerError
         then [CancelFunc (ErrorsNew ''bad status''), Return]
         else delay_goroutine (Ok resp) @ [Sleep interval])
   \<and> target Status \<noteq> target Delay"
  by (simp add: status_goroutine_def delay_goroutine_def spec_worker_def
      StatusInternalServerError_def split: outcome.splits)

section \<open>Results delivered after cancellation\<close>




section \<open>The cause reported at shutdown\<close>

text \<open>
  Claim C6. When the orchestrator has printed the final cause, both workers have
  returned, and the output holds exactly one line of the collector reporting the
  cancellation and, as its last line, exactly one final report; both carry the same
  cause, which is the cause recorded in the token and is not nil.
\<close>

theorem shutdown_reports_same_cause:
  assumes "run evs init = Some s" and "mainpc s = AtDefer \<or> mainpc s = Exited"
  shows "pcs s Status = Returned \<and> pcs s Delay = Returned
    \<and> (\<exists>e pre. out s = pre @ [(''context cause:'', E (Some e))]
          \<and> reports ''in main: cancelled!'' pre = [E (Some e)]
          \<and> reports ''context cause:'' pre = []
          \<and> Cause (tok s) = Some e)"
proof -
  from assms(1) have inv: "reach_inv s" by (rule reachable_inv)
  then have m: "main_inv s" and t: "tok_inv s" by (simp_all add: reach_inv_def)
  from m assms(2) have c: "cancelled (tok s)" and b: "both_returned s" and f: "final_form s"
    by (auto simp: main_inv_def)
  from t c obtain e where e: "Cause (tok s) = Some e" by (auto dest: cancelled_Cause)
  from f e b show ?thesis by (auto simp: final_form_def both_returned_def)
qed

theorem shutdown_reports_same_cause_witness:
  "\<exists>s. run boom_run init = Some s \<and> mainpc s = Exited
     \<and> pcs s Status = Returned \<and> pcs s Delay = Returned
     \<and> out s =
        [(''in main: cancelled!'',
            E (Some (Errorf ''in status goroutine: '' (TransportError ''boom'')))),
         (''in delay goroutine:'', E (Some Canceled)),
         (''context cause:'',
            E (Some (Errorf ''in status goroutine: '' (TransportError ''boom''))))]"
proof -
  have "\<exists>s. run boom_run init = Some s \<and> mainpc s = Exited \<and> out s =
     [(''in main: cancelled!'',
         E (Some (Errorf ''in status goroutine: '' (TransportError ''boom'')))),
      (''in delay goroutine:'', E (Some Canceled)),
      (''context cause:'',
         E (Some (Errorf ''in status goroutine: '' (TransportError ''boom''))))]"
    by (simp add: demo_defs)
  then obtain s where s: "run boom_run init = Some s" "mainpc s = Exited"
    "out s =
     [(''in main: cancelled!'',
         E (Some (Errorf ''in status goroutine: '' (TransportError ''boom'')))),
      (''in delay goroutine:'', E (Some Canceled)),
      (''context cause:'',
         E (Some (Errorf ''in status goroutine: '' (TransportError ''boom''))))]"
    by blast
  from shutdown_reports_same_cause [of boom_run s] s(1,2)
  have "pcs s Status = Returned \<and> pcs s Delay = Returned" by blast
  with s show ?thesis by blast
qed

section \<open>A worker whose call always fails\<close>

text \<open>
  Claim C7. In every run in which each call of a worker fails, the worker calls at most
  once. Before that call, the failing call can always be taken. After it, at most
  three further statements of the worker, none of which waits for anybody, bring it to
  its return with the token cancelled; and whenever the worker has returned the token
  is cancelled.
\<close>

theorem failing_worker_cancels_in_one_iteration:
  assumes "run evs init = Some s" and "always_fails w evs"
  shows "length (filter (is_call w) evs) \<le> 1
    \<and> (pcs s w = Returned \<longrightarrow> cancelled (tok s))
    \<and> (filter (is_call w) evs = [] \<longrightarrow>
          pcs s w = Running [] \<and> (\<forall>e. \<exists>s1. step (Call w (Failed e)) s = Some s1))
    \<and> (filter (is_call w) evs \<noteq> [] \<longrightarrow>
          (\<exists>n s'. n \<le> 3 \<and> run (replicate n (Exec w)) s = Some s'
              \<and> pcs s' w = Returned \<and> cancelled (tok s')))"
proof -
  from assms have inv: "fail_inv w evs s" by (rule fail_inv_run)
  show ?thesis
  proof (cases "filter (is_call w) evs = []")
    case True
    with inv have "pcs s w = Running []" by (auto simp: fail_inv_def)
    with True show ?thesis by (simp add: makeRequest_def)
  next
    case False
    with inv obtain n where n: "length (filter (is_call w) evs) = 1" "failing_pc w s n"
      by (auto simp: fail_inv_def)
    from failing_pc_finishes [OF n(2)] failing_pc_Returned [OF n(2)] n(1) False
    show ?thesis by auto
  qed
qed

theorem failing_worker_cancels_in_one_iteration_witness:
  "always_fails Status boom_loop
   \<and> (\<exists>s n s'. run boom_loop init = Some s \<and> length (filter (is_call Status) boom_loop) \<le> 1
         \<and> n \<le> 3 \<and> run (replicate n (Exec Status)) s = Some s'
         \<and> pcs s' Status = Returned \<and> cancelled (tok s'))
   \<and> always_fails Delay []
   \<and> (\<exists>s1. step (Call Delay (Failed (TransportError ''boom''))) init = Some s1)"
proof -
  have f: "always_fails Status boom_loop" "filter (is_call Status) boom_loop \<noteq> []"
    by (simp_all add: always_fails_def boom_loop_def)
  have "\<exists>s. run boom_loop init = Some s" by (simp add: demo_defs)
  then obtain s where s: "run boom_loop init = Some s" by blast
  from failing_worker_cancels_in_one_iteration [OF s f(1)] f(2)
  have a: "length (filter (is_call Status) boom_loop) \<le> 1"
    "\<exists>n s'. n \<le> 3 \<and> run (replicate n (Exec Status)) s = Some s'
         \<and> pcs s' Status = Returned \<and> cancelled (tok s')"
    by blast+
  have g: "always_fails Delay []" "run [] init = Some init" "filter (is_call Delay) [] = []"
    by (simp_all add: always_fails_def)
  from failing_worker_cancels_in_one_iteration [OF g(2) g(1)] g(3)
  have b: "\<exists>s1. step (Call Delay (Failed (TransportError ''boom''))) init = Some s1"
    by blast
  from f(1) s a g(1) b show ?thesis by blast
qed

section \<open>The collector\<close>

text \<open>
  Claim C8. The collector receives only while it is in its loop, from a worker that is
  at its \<^verbatim>\<open>select\<close>; it then prints the result and stays in the loop, and while
  the token is active such a worker's result can always be received. The collector
  takes the cancellation case only in its loop and only when the token is cancelled,
  which it then always can; it prints the recorded cause and leaves the loop. Once the
  collector has left the loop, in whatever the program does afterwards it never is in
  the loop again, receives nothing and prints no further result or cancellation line.
\<close>

theorem collector_loop:
  "(step (Send w) s = Some s1 \<longrightarrow>
      mainpc s = InLoop \<and> mainpc s1 = InLoop
      \<and> (\<exists>m k. pcs s w = Running (Select m # k) \<and> out s1 = out s @ [(''in main:'', S m)]))
   \<and> (mainpc s = InLoop \<and> pcs s w = Running (Select m # k) \<and> \<not> cancelled (tok s) \<longrightarrow>
        (\<exists>s'. step (Send w) s = Some s'))
   \<and> (step MainDone s = Some s2 \<longrightarrow>
        mainpc s = InLoop \<and> cancelled (tok s) \<and> mainpc s2 = AtWait
        \<and> out s2 = out s @ [(''in main: cancelled!'', E (Cause (tok s)))])
   \<and> (mainpc s = InLoop \<and> cancelled (tok s) \<longrightarrow> (\<exists>s'. step MainDone s = Some s'))
   \<and> (run evs init = Some s \<and> mainpc s \<noteq> InLoop \<and> run evs' s = Some s' \<longrightarrow>
        mainpc s' \<noteq> InLoop
        \<and> reports ''in main:'' (out s') = reports ''in main:'' (out s)
        \<and> reports ''in main: cancelled!'' (out s') = reports ''in main: cancelled!'' (out s)
        \<and> step (Send w) s' = None \<and> step MainDone s' = None)"
proof (intro conjI impI)
  assume "step (Send w) s = Some s1"
  then have "select_send w (pcs s w) s = Some s1" by simp
  then show "mainpc s = InLoop" and "mainpc s1 = InLoop"
    and "\<exists>m k. pcs s w = Running (Select m # k) \<and> out s1 = out s @ [(''in main:'', S m)]"
    by (cases rule: select_send_Some; simp)+
next
  assume "mainpc s = InLoop \<and> pcs s w = Running (Select m # k) \<and> \<not> cancelled (tok s)"
  then show "\<exists>s'. step (Send w) s = Some s'" by simp
next
  assume "step MainDone s = Some s2"
  then show "mainpc s = InLoop" and "cancelled (tok s)" and "mainpc s2 = AtWait"
    and "out s2 = out s @ [(''in main: cancelled!'', E (Cause (tok s)))]"
    by (auto split: if_splits)
next
  assume "mainpc s = InLoop \<and> cancelled (tok s)"
  then show "\<exists>s'. step MainDone s = Some s'" by simp
next
  assume a: "run evs init = Some s \<and> mainpc s \<noteq> InLoop \<and> run evs' s = Some s'"
  then have "reach_inv s" by (auto dest: reachable_inv)
  then have wf: "\<forall>w. wpc_wf w (pcs s w)" by (simp add: reach_inv_def)
  from after_loop_run [OF wf] a
  have r: "mainpc s' \<noteq> InLoop \<and> reports ''in main:'' (out s') = reports ''in main:'' (out s)
    \<and> reports ''in main: cancelled!'' (out s') = reports ''in main: cancelled!'' (out s)"
    by blast
  then show "mainpc s' \<noteq> InLoop"
    and "reports ''in main:'' (out s') = reports ''in main:'' (out s)"
    and "reports ''in main: cancelled!'' (out s') = reports ''in main: cancelled!'' (out s)"
    by simp_all
  from r show "step MainDone s' = None" by simp
  from r show "step (Send w) s' = None"
    by (cases "(w, pcs s' w, s')" rule: select_send.cases) simp_all
qed

theorem collector_loop_witness:
  "\<exists>s s1 t t2 s3 s4. run publish_run init = Some s
     \<and> step (Send Delay) s = Some s1
     \<and> out s1 = out s @ [(''in main:'', S ''success from delay: D'')] \<and> mainpc s1 = InLoop
     \<and> run drop_run init = Some t
     \<and> step MainDone t = Some t2
     \<and> out t2 = out t @ [(''in main: cancelled!'', E (Cause (tok t)))] \<and> mainpc t2 = AtWait
     \<and> run boom_loop init = Some s3 \<and> run boom_rest s3 = Some s4
     \<and> mainpc s4 \<noteq> InLoop \<and> reports ''in main:'' (out s4) = reports ''in main:'' (out s3)
     \<and> step (Send Delay) s4 = None \<and> step MainDone s4 = None"
proof -
  have "\<exists>s. run publish_run init = Some s \<and> mainpc s = InLoop \<and> \<not> cancelled (tok s)
     \<and> pcs s Delay = Running (Select ''success from delay: D'' # [])"
    by (simp add: demo_defs)
  then obtain s where s: "run publish_run init = Some s" "mainpc s = InLoop"
     "\<not> cancelled (tok s)"
     "pcs s Delay = Running (Select ''success from delay: D'' # [])" by blast
  have "\<exists>t. run drop_run init = Some t \<and> mainpc t = InLoop \<and> cancelled (tok t)"
    by (simp add: demo_defs)
  then obtain t where t: "run drop_run init = Some t" "mainpc t = InLoop" "cancelled (tok t)"
    by blast
  have "\<exists>s3 s4. run boom_loop init = Some s3 \<and> mainpc s3 \<noteq> InLoop
      \<and> run boom_rest s3 = Some s4"
    by (simp add: demo_defs)
  then obtain s3 s4 where s3: "run boom_loop init = Some s3" "mainpc s3 \<noteq> InLoop"
    "run boom_rest s3 = Some s4" by blast
  from collector_loop [of Delay s _ "''success from delay: D''" "[]"] s
  obtain s1 where s1: "step (Send Delay) s = Some s1" by blast
  from collector_loop [of Delay s s1] s1
  have "\<exists>m k. pcs s Delay = Running (Select m # k) \<and> out s1 = out s @ [(''in main:'', S m)]"
    and a2: "mainpc s1 = InLoop"
    by blast+
  with s(4) have a1: "out s1 = out s @ [(''in main:'', S ''success from delay: D'')]"
    by simp
  from collector_loop [of Delay t] t
  obtain t2 where t2: "step MainDone t = Some t2" by blast
  from collector_loop [of Delay t _ _ _ t2] t2
  have b: "out t2 = out t @ [(''in main: cancelled!'', E (Cause (tok t)))]" "mainpc t2 = AtWait"
    by blast+
  from collector_loop [of Delay s3 _ _ _ _ boom_loop boom_rest s4] s3
  have c: "mainpc s4 \<noteq> InLoop" "reports ''in main:'' (out s4) = reports ''in main:'' (out s3)"
     "step (Send Delay) s4 = None" "step MainDone s4 = None"
    by blast+
  show ?thesis
    apply (rule exI [of _ s], rule exI [of _ s1], rule exI [of _ t], rule exI [of _ t2])
    apply (rule exI [of _ s3], rule exI [of _ s4])
    using s(1) s1 a1 a2 t(1) t2 b s3(1,3) c by simp
qed

section \<open>Storing and extracting request-scoped values\<close>

text \<open>
  Claim C9. For every parent context and every stored value, extracting right after
  storing returns that value together with \<open>True\<close>, for the log level of package main,
  the GUID of package tracker and the user of package identity.
\<close>

theorem context_value_roundtrip:
  "LogLevelFromContext (ContextWithLogLevel c l) = (l, True)
   \<and> guidFromContext (contextWithGUID c g) = (g, True)
   \<and> UserFromContext (ContextWithUser c u) = (u, True)"
  by (simp add: LogLevelFromContext_def ContextWithLogLevel_def guidFromContext_def
      contextWithGUID_def UserFromContext_def ContextWithUser_def context_WithValue_def)

text \<open>
  The keys of the three packages do not collide: a value stored by one package is
  invisible to the accessors of the others, and the two key styles of package identity
  are independent of each other.
\<close>

lemma context_keys_do_not_collide:
  "LogLevelFromContext (ContextWithUser c u) = LogLevelFromContext c
   \<and> LogLevelFromContext (contextWithGUID c g) = LogLevelFromContext c
   \<and> guidFromContext (ContextWithUser c u) = guidFromContext c
   \<and> guidFromContext (ContextWithLogLevel c l) = guidFromContext c
   \<and> UserFromContext (contextWithGUID c g) = UserFromContext c
   \<and> UserFromContext (ContextWithLogLevel c l) = UserFromContext c
   \<and> UserFromContext (ContextWithUserStruct c u) = UserFromContext c
   \<and> UserFromContextStruct (ContextWithUser c u) = UserFromContextStruct c
   \<and> UserFromContextStruct (ContextWithUserStruct c u) = (u, True)"
  by (simp add: LogLevelFromContext_def ContextWithLogLevel_def guidFromContext_def
      contextWithGUID_def UserFromContext_def ContextWithUser_def context_WithValue_def
      UserFromContextStruct_def ContextWithUserStruct_def main_key_def tracker_key_def
      identity_key_def)

section \<open>The timeout middleware\<close>

text \<open>
  Claim C10. The handler made by \<^verbatim>\<open>Timeout(ms)\<close> calls the wrapped handler with the
  incoming request itself, context included, and yields what the wrapped handler yields.
  The context it derives from the request's context is done when the handler returns
  and was never attached to the request, so no timeout acts on the wrapped handler.
\<close>

theorem Timeout_passes_request_unchanged:
  "Timeout ms h now w r = h w r
   \<and> Timeout ms (\<lambda>seen r'. r' # seen) now [] r = [r]
   \<and> snd (Timeout_run ms h now w r) =
        cancel_context (context_WithTimeout (Context r) now (ms * Millisecond))
   \<and> is_done (snd (Timeout_run ms h now w r))"
  by (simp add: Timeout_def Timeout_run_def Let_def context_WithTimeout_def
      context_WithDeadline_def)

text \<open>
  The log-level middleware, by contrast, hands the wrapped handler a request whose
  context carries the level.
\<close>

lemma ExtractLogLevelMiddleware_attaches:
  "ExtractLogLevelMiddleware (\<lambda>w r. LogLevelFromContext (Context r)) w
     \<lparr>Method = ''GET'', Query = [(''log_level'', ''debug'')], Header = [], Cookies = [],
      ctx = Background\<rparr>
   = (''debug'', True)"
  by (simp add: ExtractLogLevelMiddleware_def Query_Get_def Debug_def Info_def Let_def
      WithContext_def Context_def LogLevelFromContext_def ContextWithLogLevel_def
      context_WithValue_def)

end
